theory Spec2Isabelle
  imports Main "HOL-Library.Word" "HOL-Library.AList"
begin

section \<open>Data model of main.go\<close>

type_synonym uint64 = "64 word"

text \<open>A stored version of a key. The Go field \<^verbatim>\<open>value\<close> is called \<open>value_str\<close> here.\<close>

record Value =
  txStartID :: uint64
  txEndID :: uint64
  value_str :: string

datatype TransactionState =
  InProgressTransaction | AbortedTransaction | CommittedTransaction

datatype IsolationLevel =
  ReadUncommittedIsolation | ReadCommittedIsolation | RepeatableReadIsolation
  | SnapshotIsolation | SerializableIsolation

text \<open>The \<^verbatim>\<open>iota\<close> values of the isolation levels, "ordered in increasing strictness".\<close>

fun isolation_rank :: "IsolationLevel \<Rightarrow> nat" where
  "isolation_rank ReadUncommittedIsolation = 0"
| "isolation_rank ReadCommittedIsolation = 1"
| "isolation_rank RepeatableReadIsolation = 2"
| "isolation_rank SnapshotIsolation = 3"
| "isolation_rank SerializableIsolation = 4"

text \<open>The Go field \<^verbatim>\<open>id\<close> is called \<open>id_tx\<close> here; the ordered sets of the btree package
  are sets.\<close>

record Transaction =
  id_tx :: uint64
  isolation :: IsolationLevel
  state :: TransactionState
  inProgress :: "uint64 set"
  writeset :: "string set"
  readset :: "string set"

text \<open>The store is a Go map from keys to slices; the transaction table is a btree map,
  kept here as an association list with one entry per key.\<close>

record Database =
  defaultIsolation :: IsolationLevel
  store :: "string \<rightharpoonup> Value list"
  transactions :: "(uint64 \<times> Transaction) list"
  nextTransactionID :: uint64

text \<open>A connection holds a pointer to its own transaction object (or nil); the database
  it points to is passed alongside.\<close>

record Connection =
  tx :: "Transaction option"

text \<open>Panics of the Go runtime and of the scaffolding \<^verbatim>\<open>assert\<close> and \<^verbatim>\<open>assertEq\<close>
  (the latter with its prefix only), and the two ways \<^verbatim>\<open>execCommand\<close> can end: it returns
  a string and an error (\<open>None\<close> is \<^verbatim>\<open>nil\<close>), or it panics.\<close>

datatype panic =
  AssertFailed string | AssertEqFailed string | NilPointerDereference | IndexOutOfRange

datatype outcome = Returned string "string option" | Panicked panic

section \<open>The database\<close>

definition newDatabase :: Database where
  "newDatabase = \<lparr> defaultIsolation = ReadCommittedIsolation, store = Map.empty,
                   transactions = [], nextTransactionID = 1 \<rparr>"

text \<open>Reading \<^verbatim>\<open>d.store[key]\<close>: a missing key gives the nil slice.\<close>

definition versions :: "Database \<Rightarrow> string \<Rightarrow> Value list" where
  "versions d key = (case store d key of None \<Rightarrow> [] | Some vs \<Rightarrow> vs)"

text \<open>\<^verbatim>\<open>Database.inProgress\<close>: the loop over the transaction table.\<close>

definition Database_inProgress :: "Database \<Rightarrow> uint64 set" where
  "Database_inProgress d =
     fold (\<lambda>(k, t) ids. if state t = InProgressTransaction then insert k ids else ids)
          (transactions d) {}"

definition newTransaction :: "Database \<Rightarrow> Transaction \<times> Database" where
  "newTransaction d =
     (let t = \<lparr> id_tx = nextTransactionID d, isolation = defaultIsolation d,
                state = InProgressTransaction, inProgress = Database_inProgress d,
                writeset = {}, readset = {} \<rparr>
      in (t, d\<lparr> nextTransactionID := nextTransactionID d + 1,
                transactions := AList.update (id_tx t) t (transactions d) \<rparr>))"

text \<open>\<^verbatim>\<open>completeTransaction\<close> writes the state into the transaction object and copies the
  object into the table; its error is always nil.\<close>

definition completeTransaction ::
  "Database \<Rightarrow> Transaction \<Rightarrow> TransactionState \<Rightarrow> Transaction \<times> Database" where
  "completeTransaction d t st =
     (let t' = t\<lparr> state := st \<rparr>
      in (t', d\<lparr> transactions := AList.update (id_tx t') t' (transactions d) \<rparr>))"

definition transactionState :: "Database \<Rightarrow> uint64 \<Rightarrow> panic + Transaction" where
  "transactionState d txID =
     (case map_of (transactions d) txID of
        None \<Rightarrow> Inl (AssertFailed ''valid transacation'')
      | Some t \<Rightarrow> Inr t)"

text \<open>\<^verbatim>\<open>assertValidTransaction\<close>: \<open>None\<close> when both assertions pass, else the panic. A nil
  pointer panics at \<^verbatim>\<open>t.id\<close>.\<close>

definition assertValidTransaction :: "Database \<Rightarrow> Transaction option \<Rightarrow> panic option" where
  "assertValidTransaction d p =
     (case p of
        None \<Rightarrow> Some NilPointerDereference
      | Some t \<Rightarrow>
          if \<not> id_tx t > 0 then Some (AssertFailed ''valid id'')
          else (case transactionState d (id_tx t) of
                  Inl e \<Rightarrow> Some e
                | Inr u \<Rightarrow> if state u = InProgressTransaction then None
                           else Some (AssertFailed ''in progress transaction'')))"

section \<open>Strings\<close>

text \<open>\<^verbatim>\<open>strings.ToLower\<close> on the ASCII letters; every other byte is kept. Every command
  name is ASCII, and a name that is none of them is an unknown command.\<close>

definition lower_char :: "char \<Rightarrow> char" where
  "lower_char c =
     (case map_of (zip ''ABCDEFGHIJKLMNOPQRSTUVWXYZ'' ''abcdefghijklmnopqrstuvwxyz'') c of
        None \<Rightarrow> c
      | Some l \<Rightarrow> l)"

definition ToLower :: "string \<Rightarrow> string" where
  "ToLower s = map lower_char s"

text \<open>\<^verbatim>\<open>fmt.Sprintf("%d", n)\<close> for an unsigned number.\<close>

definition digit :: "nat \<Rightarrow> char" where
  "digit k = ''0123456789'' ! k"

function Sprintf_d :: "nat \<Rightarrow> string" where
  "Sprintf_d n = (if n < 10 then [digit n] else Sprintf_d (n div 10) @ [digit (n mod 10)])"
  by pat_completeness auto
termination
  by (relation "measure (\<lambda>n. n)") auto

declare Sprintf_d.simps [simp del]

section \<open>Visibility\<close>

text \<open>Modelled from the spec: \<^verbatim>\<open>Database.isVisible\<close> is called by \<^verbatim>\<open>execCommand\<close> and is
  defined nowhere in the source. The commands below take it as a parameter, a function of
  the database, the transaction and the version that has no effect. The definitions
  \<open>creatorVisible\<close> and \<open>versionVisible\<close> follow section 4.3 of the specification; a
  creator that is not in the table, of which the specification says nothing, is not
  visible.\<close>

type_synonym visibility = "Database \<Rightarrow> Transaction \<Rightarrow> Value \<Rightarrow> bool"

definition creatorVisible :: "Database \<Rightarrow> Transaction \<Rightarrow> uint64 \<Rightarrow> bool" where
  "creatorVisible d t originId =
     (if originId = id_tx t then True
      else (case map_of (transactions d) originId of
              None \<Rightarrow> False
            | Some origin \<Rightarrow>
                (case state origin of
                   AbortedTransaction \<Rightarrow> False
                 | InProgressTransaction \<Rightarrow> isolation t = ReadUncommittedIsolation
                 | CommittedTransaction \<Rightarrow>
                     if isolation_rank (isolation t) < isolation_rank RepeatableReadIsolation
                     then True
                     else originId \<notin> inProgress t)))"

definition versionVisible :: visibility where
  "versionVisible d t version =
     (if \<not> creatorVisible d t (txStartID version) then False
      else if txEndID version = 0 then True
      else if txEndID version = id_tx t then False
      else \<not> creatorVisible d t (txEndID version))"

section \<open>Commands\<close>

text \<open>The loop of \<^verbatim>\<open>get\<close>: \<^verbatim>\<open>for i := len(vs) - 1; i > 0; i--\<close>. The argument is the
  index \<open>i\<close>; the loop ends at \<open>i = 0\<close> without reading that element. \<open>None\<close> means the loop
  ended without returning.\<close>

fun get_loop :: "visibility \<Rightarrow> Database \<Rightarrow> Transaction \<Rightarrow> Value list \<Rightarrow> nat \<Rightarrow> string option" where
  "get_loop isVisible d t vs 0 = None"
| "get_loop isVisible d t vs (Suc i) =
     (let v = vs ! Suc i
      in if isVisible d t v then Some (value_str v) else get_loop isVisible d t vs i)"

text \<open>The loop of \<^verbatim>\<open>set\<close> and \<^verbatim>\<open>delete\<close>: \<^verbatim>\<open>for i := len(vs) - 1; i >= 0; i--\<close>. The
  argument is \<open>i + 1\<close>. A visible version is stamped in place, and the next test of
  visibility sees the stamped store.\<close>

definition stamp :: "Database \<Rightarrow> string \<Rightarrow> nat \<Rightarrow> uint64 \<Rightarrow> Database" where
  "stamp d key i txid =
     d\<lparr> store := (store d)(key \<mapsto> (versions d key)[i := (versions d key ! i)\<lparr> txEndID := txid \<rparr>]) \<rparr>"

fun close_loop ::
  "visibility \<Rightarrow> Transaction \<Rightarrow> string \<Rightarrow> Database \<times> bool \<Rightarrow> nat \<Rightarrow> Database \<times> bool" where
  "close_loop isVisible t key (d, found) 0 = (d, found)"
| "close_loop isVisible t key (d, found) (Suc i) =
     (if isVisible d t (versions d key ! i)
      then close_loop isVisible t key (stamp d key i (id_tx t), True) i
      else close_loop isVisible t key (d, found) i)"

definition exec_begin :: "Connection \<Rightarrow> Database \<Rightarrow> outcome \<times> Connection \<times> Database" where
  "exec_begin c d =
     (if tx c \<noteq> None then (Panicked (AssertEqFailed ''no running transactions''), c, d)
      else (let (t, d') = newTransaction d; c' = c\<lparr> tx := Some t \<rparr>
            in case assertValidTransaction d' (tx c') of
                 Some e \<Rightarrow> (Panicked e, c', d')
               | None \<Rightarrow> (Returned (Sprintf_d (unat (id_tx t))) None, c', d')))"

text \<open>\<^verbatim>\<open>abort\<close> and \<^verbatim>\<open>commit\<close> differ in the state they pass only.\<close>

definition exec_complete ::
  "Connection \<Rightarrow> Database \<Rightarrow> TransactionState \<Rightarrow> outcome \<times> Connection \<times> Database" where
  "exec_complete c d st =
     (case assertValidTransaction d (tx c) of
        Some e \<Rightarrow> (Panicked e, c, d)
      | None \<Rightarrow> (let (t', d') = completeTransaction d (the (tx c)) st
                 in (Returned '''' None, c\<lparr> tx := None \<rparr>, d')))"

text \<open>The \<^verbatim>\<open>get\<close> block: it returns from inside the loop or not at all (\<open>None\<close>), and
  control then goes on to the tests that follow it.\<close>

definition exec_get ::
  "visibility \<Rightarrow> Connection \<Rightarrow> Database \<Rightarrow> string list \<Rightarrow> outcome option \<times> Connection \<times> Database" where
  "exec_get isVisible c d args =
     (case assertValidTransaction d (tx c) of
        Some e \<Rightarrow> (Some (Panicked e), c, d)
      | None \<Rightarrow>
          (case args of
             [] \<Rightarrow> (Some (Panicked IndexOutOfRange), c, d)
           | key # _ \<Rightarrow>
               (let t = the (tx c); t' = t\<lparr> readset := insert key (readset t) \<rparr>;
                    c' = c\<lparr> tx := Some t' \<rparr>
                in case get_loop isVisible d t' (versions d key) (length (versions d key) - 1) of
                     Some v \<Rightarrow> (Some (Returned v None), c', d)
                   | None \<Rightarrow> (None, c', d))))"

text \<open>The \<^verbatim>\<open>set\<close>/\<^verbatim>\<open>delete\<close> block. The format string of the error has a \<^verbatim>\<open>%q\<close> and no
  argument, for which \<^verbatim>\<open>fmt\<close> prints \<^verbatim>\<open>%!q(MISSING)\<close>.\<close>

definition exec_write ::
  "visibility \<Rightarrow> Connection \<Rightarrow> Database \<Rightarrow> string \<Rightarrow> string list \<Rightarrow> outcome \<times> Connection \<times> Database" where
  "exec_write isVisible c d command args =
     (case assertValidTransaction d (tx c) of
        Some e \<Rightarrow> (Panicked e, c, d)
      | None \<Rightarrow>
          (case args of
             [] \<Rightarrow> (Panicked IndexOutOfRange, c, d)
           | key # rest \<Rightarrow>
               (let t = the (tx c);
                    (d', found) = close_loop isVisible t key (d, False) (length (versions d key))
                in if command = ''delete'' \<and> \<not> found
                   then (Returned '''' (Some ''delete failed: key %!q(MISSING) not found''), c, d')
                   else (let t' = t\<lparr> writeset := insert key (writeset t) \<rparr>;
                             c' = c\<lparr> tx := Some t' \<rparr>
                         in if command = ''set''
                            then (case rest of
                                    [] \<Rightarrow> (Panicked IndexOutOfRange, c', d')
                                  | v # _ \<Rightarrow>
                                      (Returned v None, c',
                                       d'\<lparr> store := (store d')(key \<mapsto> versions d' key @
                                            [\<lparr> txStartID = id_tx t', txEndID = 0, value_str = v \<rparr>]) \<rparr>))
                            else (Returned '''' None, c', d')))))"

text \<open>\<^verbatim>\<open>Connection.execCommand\<close>: the blocks in the order of the source. The \<^verbatim>\<open>get\<close>
  block has no return after its loop, so a \<^verbatim>\<open>get\<close> that finds nothing reaches the last
  line of the function.\<close>

definition execCommand ::
  "visibility \<Rightarrow> Connection \<Rightarrow> Database \<Rightarrow> string \<Rightarrow> string list \<Rightarrow> outcome \<times> Connection \<times> Database" where
  "execCommand isVisible c d command args =
     (let command = ToLower command in
      if command = ''begin'' then exec_begin c d
      else if command = ''abort'' then exec_complete c d AbortedTransaction
      else if command = ''commit'' then exec_complete c d CommittedTransaction
      else (case (if command = ''get'' then exec_get isVisible c d args else (None, c, d)) of
              (Some r, c1, d1) \<Rightarrow> (r, c1, d1)
            | (None, c1, d1) \<Rightarrow>
                if command = ''set'' \<or> command = ''delete''
                then exec_write isVisible c1 d1 command args
                else (Returned '''' (Some ''command unimplemented''), c1, d1)))"

definition newConnection :: Connection where
  "newConnection = \<lparr> tx = None \<rparr>"

section \<open>Several connections on one database\<close>

text \<open>A database and the connections made on it. An operation makes a connection or
  runs a command on the connection with the given index (an index that names no
  connection is skipped). A panic ends the run, as nothing in the program recovers.\<close>

record System =
  db :: Database
  conns :: "Connection list"

datatype operation = NewConnection | Exec nat string "string list"

definition initial :: System where
  "initial = \<lparr> db = newDatabase, conns = [] \<rparr>"

fun run :: "visibility \<Rightarrow> System \<Rightarrow> operation list \<Rightarrow> (operation \<times> outcome) list \<times> System" where
  "run isVisible s [] = ([], s)"
| "run isVisible s (NewConnection # ops) =
     run isVisible (s\<lparr> conns := conns s @ [newConnection] \<rparr>) ops"
| "run isVisible s (Exec i command args # ops) =
     (if i < length (conns s)
      then (case execCommand isVisible (conns s ! i) (db s) command args of
              (r, c', d') \<Rightarrow>
                (let s' = s\<lparr> db := d', conns := (conns s)[i := c'] \<rparr>
                 in case r of
                      Panicked e \<Rightarrow> ([(Exec i command args, r)], s')
                    | Returned v err \<Rightarrow>
                        (let (trace, s'') = run isVisible s' ops
                         in ((Exec i command args, r) # trace, s''))))
      else run isVisible s ops)"

section \<open>Predicates of the statements\<close>

text \<open>What the \<^verbatim>\<open>begin\<close> commands of a run returned, in order: the strings returned
  without an error by the commands that \<^verbatim>\<open>execCommand\<close> takes for \<^verbatim>\<open>begin\<close>.\<close>

fun begin_results :: "(operation \<times> outcome) list \<Rightarrow> string list" where
  "begin_results [] = []"
| "begin_results ((Exec i command args, Returned v None) # trace) =
     (if ToLower command = ''begin'' then v # begin_results trace else begin_results trace)"
| "begin_results (_ # trace) = begin_results trace"

text \<open>A call that hands an error back to its caller, and a call that panics.\<close>

fun returns_error :: "outcome \<Rightarrow> bool" where
  "returns_error (Returned v err) = (err \<noteq> None)"
| "returns_error (Panicked e) = False"

fun is_panic :: "outcome \<Rightarrow> bool" where
  "is_panic (Panicked e) = True"
| "is_panic (Returned v err) = False"

text \<open>The id, level and state of every entry of the transaction table.\<close>

definition table_states ::
  "Database \<Rightarrow> (uint64 \<times> IsolationLevel \<times> TransactionState) list" where
  "table_states d = map (\<lambda>(k, t). (k, isolation t, state t)) (transactions d)"

text \<open>Every version that is closed in \<open>d\<close> is still there and still closed in \<open>d'\<close>.\<close>

definition closed_kept :: "Database \<Rightarrow> Database \<Rightarrow> bool" where
  "closed_kept d d' \<longleftrightarrow>
     (\<forall>k i. i < length (versions d k) \<and> txEndID (versions d k ! i) \<noteq> 0 \<longrightarrow>
            i < length (versions d' k) \<and> txEndID (versions d' k ! i) \<noteq> 0)"

text \<open>The database's default level, the level of every transaction in the table and the
  level of the connection's transaction are all read committed.\<close>

definition read_committed_only :: "Connection \<Rightarrow> Database \<Rightarrow> bool" where
  "read_committed_only c d \<longleftrightarrow>
     defaultIsolation d = ReadCommittedIsolation \<and>
     (\<forall>(k, t) \<in> set (transactions d). isolation t = ReadCommittedIsolation) \<and>
     (\<forall>t. tx c = Some t \<longrightarrow> isolation t = ReadCommittedIsolation)"

definition system_read_committed :: "System \<Rightarrow> bool" where
  "system_read_committed s \<longleftrightarrow>
     read_committed_only newConnection (db s) \<and>
     (\<forall>c \<in> set (conns s). read_committed_only c (db s))"

text \<open>The counter stands at \<open>n\<close> (modulo \<open>2 ^ 64\<close>), and the table has one entry per id,
  with ids from 1 to \<open>n - 1\<close>.\<close>

definition table_inv :: "nat \<Rightarrow> Database \<Rightarrow> bool" where
  "table_inv n d \<longleftrightarrow>
     nextTransactionID d = of_nat n \<and> 0 < n \<and> n \<le> 2 ^ 64 \<and>
     distinct (map fst (transactions d)) \<and>
     (\<forall>k \<in> fst ` set (transactions d). 0 < unat k \<and> unat k < n)"

text \<open>A sequence of \<open>n\<close> begins: \<open>n\<close> connections are made, and each runs \<^verbatim>\<open>begin\<close>
  once, in the order of the connections.\<close>

definition begins :: "nat \<Rightarrow> operation list" where
  "begins n = replicate n NewConnection @ map (\<lambda>i. Exec i ''begin'' []) [0 ..< n]"

section \<open>Example states\<close>

text \<open>The first transaction of a new database, in progress on a connection, and the
  database after its \<^verbatim>\<open>begin\<close>.\<close>

definition tx1 :: Transaction where
  "tx1 = \<lparr> id_tx = 1, isolation = ReadCommittedIsolation, state = InProgressTransaction,
           inProgress = {}, writeset = {}, readset = {} \<rparr>"

definition conn1 :: Connection where
  "conn1 = \<lparr> tx = Some tx1 \<rparr>"

definition db1 :: Database where
  "db1 = \<lparr> defaultIsolation = ReadCommittedIsolation, store = Map.empty,
           transactions = [(1, tx1)], nextTransactionID = 2 \<rparr>"

text \<open>The same after \<^verbatim>\<open>set x 1\<close> and \<^verbatim>\<open>set x 2\<close>: the first version is closed by the
  transaction itself. The table still holds the copy made at \<^verbatim>\<open>begin\<close>.\<close>

definition tx1w :: Transaction where
  "tx1w = tx1\<lparr> writeset := {''x''} \<rparr>"

definition conn1w :: Connection where
  "conn1w = \<lparr> tx = Some tx1w \<rparr>"

definition db1w :: Database where
  "db1w = db1\<lparr> store := [''x'' \<mapsto> [\<lparr> txStartID = 1, txEndID = 1, value_str = ''1'' \<rparr>,
                                    \<lparr> txStartID = 1, txEndID = 0, value_str = ''2'' \<rparr>]] \<rparr>"

text \<open>A database whose default level is snapshot isolation, and two connections that
  begin, set the same key, and of which the first commits.\<close>

definition snapshot_system :: System where
  "snapshot_system =
     \<lparr> db = newDatabase\<lparr> defaultIsolation := SnapshotIsolation \<rparr>, conns = [] \<rparr>"

definition two_writers :: "operation list" where
  "two_writers = [NewConnection, NewConnection, Exec 0 ''begin'' [], Exec 1 ''begin'' [],
                  Exec 0 ''set'' [''x'', ''1''], Exec 1 ''set'' [''x'', ''2''],
                  Exec 0 ''commit'' []]"

text \<open>A database whose default level is repeatable read, after two connections began and
  the first committed.\<close>

definition rr_system :: System where
  "rr_system =
     \<lparr> db = newDatabase\<lparr> defaultIsolation := RepeatableReadIsolation \<rparr>, conns = [] \<rparr>"

definition rr_db :: Database where
  "rr_db = \<lparr> defaultIsolation = RepeatableReadIsolation, store = Map.empty,
             transactions =
               [(1, \<lparr> id_tx = 1, isolation = RepeatableReadIsolation,
                      state = CommittedTransaction, inProgress = {}, writeset = {},
                      readset = {} \<rparr>),
                (2, \<lparr> id_tx = 2, isolation = RepeatableReadIsolation,
                      state = InProgressTransaction, inProgress = {1}, writeset = {},
                      readset = {} \<rparr>)],
             nextTransactionID = 3 \<rparr>"

section \<open>Evaluation\<close>

lemmas exec_defs =
  initial_def newDatabase_def newConnection_def execCommand_def ToLower_def lower_char_def
  exec_begin_def exec_complete_def exec_get_def exec_write_def newTransaction_def
  completeTransaction_def assertValidTransaction_def transactionState_def
  Database_inProgress_def versions_def Sprintf_d.simps digit_def Let_def stamp_def
  tx1_def conn1_def db1_def tx1w_def conn1w_def db1w_def snapshot_system_def
  two_writers_def table_states_def rr_system_def rr_db_def

text \<open>The example states are states of runs.\<close>

lemma db1w_reachable:
  "snd (run versionVisible initial
          [NewConnection, Exec 0 ''begin'' [], Exec 0 ''set'' [''x'', ''1''],
           Exec 0 ''set'' [''x'', ''2'']]) =
   \<lparr> db = db1w, conns = [conn1w] \<rparr>"
  by (simp add: exec_defs versionVisible_def creatorVisible_def)

lemma rr_db_reachable:
  "db (snd (run versionVisible rr_system
              [NewConnection, NewConnection, Exec 0 ''begin'' [], Exec 1 ''begin'' [],
               Exec 0 ''commit'' []])) = rr_db"
  by (simp add: exec_defs)

lemma two_writers_state:
  "snd (run versionVisible snapshot_system two_writers) =
   \<lparr> db = \<lparr> defaultIsolation = SnapshotIsolation,
            store = [''x'' \<mapsto> [\<lparr> txStartID = 1, txEndID = 0, value_str = ''1'' \<rparr>,
                              \<lparr> txStartID = 2, txEndID = 0, value_str = ''2'' \<rparr>]],
            transactions =
              [(1, \<lparr> id_tx = 1, isolation = SnapshotIsolation, state = CommittedTransaction,
                     inProgress = {}, writeset = {''x''}, readset = {} \<rparr>),
               (2, \<lparr> id_tx = 2, isolation = SnapshotIsolation, state = InProgressTransaction,
                     inProgress = {1}, writeset = {}, readset = {} \<rparr>)],
            nextTransactionID = 3 \<rparr>,
     conns = [\<lparr> tx = None \<rparr>,
              \<lparr> tx = Some \<lparr> id_tx = 2, isolation = SnapshotIsolation,
                            state = InProgressTransaction, inProgress = {1},
                            writeset = {''x''}, readset = {} \<rparr> \<rparr>] \<rparr>"
  by (simp add: exec_defs versionVisible_def creatorVisible_def)

section \<open>Facts about the commands\<close>

lemma assertValid_iff:
  "assertValidTransaction d p = None \<longleftrightarrow>
   (\<exists>t u. p = Some t \<and> 0 < id_tx t \<and> map_of (transactions d) (id_tx t) = Some u \<and> state u = InProgressTransaction)"
  by (auto simp: assertValidTransaction_def transactionState_def split: option.splits)

lemma assertValid_nil: "assertValidTransaction d None = Some NilPointerDereference"
  by (simp add: assertValidTransaction_def)

lemma exec_complete_valid:
  assumes "tx c = Some t" "0 < id_tx t" "map_of (transactions d) (id_tx t) = Some u"
    "state u = InProgressTransaction"
  shows "exec_complete c d st =
    (Returned '''' None, c\<lparr> tx := None \<rparr>,
     d\<lparr> transactions := AList.update (id_tx t) (t\<lparr> state := st \<rparr>) (transactions d) \<rparr>)"
proof -
  from assms have "assertValidTransaction d (tx c) = None"
    by (auto simp: assertValid_iff)
  with assms(1) show ?thesis
    by (simp add: exec_complete_def completeTransaction_def Let_def)
qed

lemma exec_begin_returned:
  assumes "exec_begin c d = (Returned v err, c', d')"
  shows "tx c = None \<and> err = None \<and> nextTransactionID d \<noteq> 0 \<and>
         v = Sprintf_d (unat (nextTransactionID d)) \<and>
         c' = c\<lparr> tx := Some (fst (newTransaction d)) \<rparr> \<and> d' = snd (newTransaction d)"
  using assms
  by (auto simp: exec_begin_def Let_def assertValidTransaction_def newTransaction_def
           split: if_splits option.splits prod.splits)

lemma store_exec_begin: "exec_begin c d = (r, c', d') \<Longrightarrow> store d' = store d"
  by (auto simp: exec_begin_def newTransaction_def Let_def split: if_splits option.splits)

lemma store_exec_complete: "exec_complete c d st = (r, c', d') \<Longrightarrow> store d' = store d"
  by (auto simp: exec_complete_def completeTransaction_def Let_def split: if_splits option.splits)

lemma store_exec_get: "exec_get vis c d args = (r, c', d') \<Longrightarrow> d' = d"
  by (auto simp: exec_get_def Let_def split: if_splits option.splits list.splits)

text \<open>The ordered set that \<^verbatim>\<open>Database.inProgress\<close> builds.\<close>

lemma inProgress_fold:
  "fold (\<lambda>(k, t) ids. if state t = InProgressTransaction then insert k ids else ids) al acc =
   acc \<union> {k. \<exists>t. (k, t) \<in> set al \<and> state t = InProgressTransaction}"
  by (induction al arbitrary: acc) (auto split: if_splits)

lemma Database_inProgress_set:
  "Database_inProgress d = {k. \<exists>t. (k, t) \<in> set (transactions d) \<and> state t = InProgressTransaction}"
  by (simp add: Database_inProgress_def inProgress_fold)

lemma Database_inProgress_map_of:
  "distinct (map fst (transactions d)) \<Longrightarrow>
   Database_inProgress d = {k. \<exists>t. map_of (transactions d) k = Some t \<and> state t = InProgressTransaction}"
  by (simp add: Database_inProgress_set)

lemma set_AList_update:
  "(k', v') \<in> set (AList.update k v al) \<Longrightarrow> (k', v') = (k, v) \<or> (k', v') \<in> set al"
  by (induction al) (auto split: if_splits)

subsection \<open>The write loop\<close>

lemma close_loop_found: "snd (close_loop vis t key (d, True) n) = True"
  by (induction n arbitrary: d) auto

text \<open>A loop that ends with \<open>found\<close> false has stamped nothing.\<close>

lemma close_loop_not_found:
  "snd (close_loop vis t key (d, found) n) = False \<Longrightarrow>
   close_loop vis t key (d, found) n = (d, False)"
proof (induction n arbitrary: d found)
  case 0
  then show ?case by simp
next
  case (Suc n)
  show ?case
  proof (cases "vis d t (versions d key ! n)")
    case True
    with Suc.prems close_loop_found [of vis t key "stamp d key n (id_tx t)" n]
    show ?thesis by simp
  next
    case False
    with Suc show ?thesis by simp
  qed
qed

lemma exec_write_delete_error:
  assumes "exec_write vis c d ''delete'' args = (Returned v (Some err), c', d')"
  shows "c' = c \<and> d' = d \<and> v = '''' \<and> err = ''delete failed: key %!q(MISSING) not found''"
proof -
  from assms obtain key rest where args: "args = key # rest"
    by (cases args) (auto simp: exec_write_def split: option.splits)
  from assms have valid: "assertValidTransaction d (tx c) = None"
    by (auto simp: exec_write_def split: option.splits)
  obtain d1 found where
    cl: "close_loop vis (the (tx c)) key (d, False) (length (versions d key)) = (d1, found)"
    by (cases "close_loop vis (the (tx c)) key (d, False) (length (versions d key))")
  from assms args valid cl have nf: "\<not> found"
    by (auto simp: exec_write_def Let_def split: if_splits)
  with cl close_loop_not_found [of vis "the (tx c)" key d False "length (versions d key)"]
  have "d1 = d" by simp
  with assms args valid cl nf show ?thesis
    by (simp add: exec_write_def)
qed

lemma execCommand_delete:
  "ToLower command = ''delete'' \<Longrightarrow>
   execCommand vis c d command args = exec_write vis c d ''delete'' args"
  by (simp add: execCommand_def)

lemma isolation_close_loop:
  "close_loop vis t key (d, f) n = (d', f') \<Longrightarrow>
   transactions d' = transactions d \<and> defaultIsolation d' = defaultIsolation d"
proof (induction n arbitrary: d f)
  case 0
  then show ?case by simp
next
  case (Suc n)
  show ?case
  proof (cases "vis d t (versions d key ! n)")
    case True
    with Suc.prems Suc.IH [of "stamp d key n (id_tx t)" True] show ?thesis
      by (simp add: stamp_def)
  next
    case False
    with Suc show ?thesis by simp
  qed
qed

lemma next_close_loop:
  "close_loop vis t key (d, f) n = (d', f') \<Longrightarrow> nextTransactionID d' = nextTransactionID d"
proof (induction n arbitrary: d f)
  case 0
  then show ?case by simp
next
  case (Suc n)
  show ?case
  proof (cases "vis d t (versions d key ! n)")
    case True
    with Suc.prems Suc.IH [of "stamp d key n (id_tx t)" True] show ?thesis
      by (simp add: stamp_def)
  next
    case False
    with Suc show ?thesis by simp
  qed
qed

lemma versions_stamp:
  "versions (stamp d key i x) k =
     (if k = key then (versions d key)[i := (versions d key ! i)\<lparr> txEndID := x \<rparr>] else versions d k)"
  by (simp add: stamp_def versions_def)

subsection \<open>Closed versions stay closed\<close>

lemma closed_kept_refl: "closed_kept d d"
  by (simp add: closed_kept_def)

lemma closed_kept_trans: "closed_kept d d' \<Longrightarrow> closed_kept d' d'' \<Longrightarrow> closed_kept d d''"
  unfolding closed_kept_def by blast

lemma closed_kept_stamp: "x \<noteq> 0 \<Longrightarrow> closed_kept d (stamp d key i x)"
  by (cases "i < length (versions d key)")
     (auto simp: closed_kept_def versions_stamp nth_list_update split: if_splits)

lemma closed_kept_close_loop:
  "id_tx t \<noteq> 0 \<Longrightarrow> closed_kept d (fst (close_loop vis t key (d, f) n))"
proof (induction n arbitrary: d f)
  case 0
  then show ?case by (simp add: closed_kept_refl)
next
  case (Suc n)
  show ?case
  proof (cases "vis d t (versions d key ! n)")
    case True
    from Suc.prems have "closed_kept d (stamp d key n (id_tx t))"
      by (rule closed_kept_stamp)
    moreover from Suc have
      "closed_kept (stamp d key n (id_tx t)) (fst (close_loop vis t key (stamp d key n (id_tx t), True) n))"
      by blast
    ultimately show ?thesis using True
      by (auto intro: closed_kept_trans)
  next
    case False
    with Suc show ?thesis by simp
  qed
qed

lemma closed_kept_append:
  "closed_kept d (d\<lparr> store := (store d)(key \<mapsto> versions d key @ [v]) \<rparr>)"
  by (auto simp: closed_kept_def versions_def nth_append)

lemma closed_kept_store: "store d' = store d \<Longrightarrow> closed_kept d d'"
  by (simp add: closed_kept_def versions_def)

lemma closed_kept_exec_write:
  assumes "exec_write vis c d command args = (r, c', d')"
  shows "closed_kept d d'"
proof (cases "assertValidTransaction d (tx c)")
  case (Some e)
  with assms show ?thesis by (simp add: exec_write_def closed_kept_refl)
next
  case None
  then obtain t where t: "tx c = Some t" "id_tx t \<noteq> 0"
    by (auto simp: assertValid_iff)
  show ?thesis
  proof (cases args)
    case Nil
    with assms None show ?thesis by (simp add: exec_write_def closed_kept_refl)
  next
    case (Cons key rest)
    obtain d1 found where
      cl: "close_loop vis t key (d, False) (length (versions d key)) = (d1, found)"
      by (cases "close_loop vis t key (d, False) (length (versions d key))")
    from closed_kept_close_loop [OF t(2), of d vis key False "length (versions d key)"] cl
    have k1: "closed_kept d d1" by simp
    from assms None Cons t cl have
      "d' = d1 \<or> (\<exists>v. d' = d1\<lparr> store := (store d1)(key \<mapsto> versions d1 key @ [v]) \<rparr>)"
      by (auto simp: exec_write_def Let_def split: if_splits list.splits)
    with k1 closed_kept_append [of d1 key] show ?thesis
      by (auto intro: closed_kept_trans)
  qed
qed

lemma closed_kept_execCommand:
  assumes "execCommand vis c d command args = (r, c', d')"
  shows "closed_kept d d'"
proof -
  consider (b) "ToLower command = ''begin''" | (a) "ToLower command = ''abort''"
    | (c) "ToLower command = ''commit''" | (g) "ToLower command = ''get''"
    | (w) "ToLower command = ''set'' \<or> ToLower command = ''delete''"
    | (o) "ToLower command \<notin> {''begin'', ''abort'', ''commit'', ''get'', ''set'', ''delete''}"
    by blast
  then show ?thesis
  proof cases
    case b
    with assms show ?thesis
      by (auto simp: execCommand_def intro: closed_kept_store store_exec_begin)
  next
    case a
    with assms show ?thesis
      by (auto simp: execCommand_def intro: closed_kept_store store_exec_complete)
  next
    case c
    with assms show ?thesis
      by (auto simp: execCommand_def intro: closed_kept_store store_exec_complete)
  next
    case g
    obtain r1 c1 d1 where eg: "exec_get vis c d args = (r1, c1, d1)"
      by (cases "exec_get vis c d args")
    with assms g store_exec_get [OF eg] show ?thesis
      by (auto simp: execCommand_def Let_def closed_kept_refl split: option.splits)
  next
    case w
    with assms have "exec_write vis c d (ToLower command) args = (r, c', d')"
      by (auto simp: execCommand_def)
    then show ?thesis by (rule closed_kept_exec_write)
  next
    case o
    with assms show ?thesis
      by (auto simp: execCommand_def closed_kept_refl)
  qed
qed

subsection \<open>Isolation levels\<close>

lemma rc_exec_begin:
  assumes "read_committed_only c d" and "exec_begin c d = (r, c', d')"
  shows "read_committed_only c' d'"
  using assms
  by (auto simp: read_committed_only_def exec_begin_def newTransaction_def Let_def
           split: if_splits option.splits dest!: set_AList_update)

lemma rc_exec_complete:
  assumes "read_committed_only c d" and "exec_complete c d st = (r, c', d')"
  shows "read_committed_only c' d'"
  using assms
  by (auto simp: read_committed_only_def exec_complete_def completeTransaction_def Let_def
                 assertValid_iff
           split: if_splits option.splits dest!: set_AList_update)

lemma rc_exec_get:
  assumes "read_committed_only c d" and "exec_get vis c d args = (r, c', d')"
  shows "read_committed_only c' d'"
  using assms
  by (auto simp: read_committed_only_def exec_get_def Let_def assertValid_iff
           split: if_splits option.splits list.splits)

lemma rc_exec_write:
  assumes "read_committed_only c d" and "exec_write vis c d command args = (r, c', d')"
  shows "read_committed_only c' d'"
proof (cases "assertValidTransaction d (tx c)")
  case (Some e)
  with assms show ?thesis by (simp add: exec_write_def)
next
  case None
  then obtain t where t: "tx c = Some t" by (auto simp: assertValid_iff)
  show ?thesis
  proof (cases args)
    case Nil
    with assms None show ?thesis by (simp add: exec_write_def)
  next
    case (Cons key rest)
    obtain d1 found where
      cl: "close_loop vis t key (d, False) (length (versions d key)) = (d1, found)"
      by (cases "close_loop vis t key (d, False) (length (versions d key))")
    from isolation_close_loop [OF cl] assms(1) t have "read_committed_only c d1"
      by (simp add: read_committed_only_def)
    with assms None Cons t cl show ?thesis
      by (auto simp: exec_write_def Let_def read_committed_only_def
               split: if_splits list.splits)
  qed
qed

lemma rc_execCommand:
  assumes "read_committed_only c d" and "execCommand vis c d command args = (r, c', d')"
  shows "read_committed_only c' d'"
proof -
  consider (b) "ToLower command = ''begin''" | (a) "ToLower command = ''abort''"
    | (c) "ToLower command = ''commit''" | (g) "ToLower command = ''get''"
    | (w) "ToLower command = ''set'' \<or> ToLower command = ''delete''"
    | (o) "ToLower command \<notin> {''begin'', ''abort'', ''commit'', ''get'', ''set'', ''delete''}"
    by blast
  then show ?thesis
  proof cases
    case b
    with assms show ?thesis by (auto simp: execCommand_def intro: rc_exec_begin)
  next
    case a
    with assms show ?thesis by (auto simp: execCommand_def intro: rc_exec_complete)
  next
    case c
    with assms show ?thesis by (auto simp: execCommand_def intro: rc_exec_complete)
  next
    case g
    obtain r1 c1 d1 where eg: "exec_get vis c d args = (r1, c1, d1)"
      by (cases "exec_get vis c d args")
    with assms g rc_exec_get [OF assms(1) eg] show ?thesis
      by (auto simp: execCommand_def Let_def split: option.splits)
  next
    case w
    with assms have "exec_write vis c d (ToLower command) args = (r, c', d')"
      by (auto simp: execCommand_def)
    with assms(1) show ?thesis by (rule rc_exec_write)
  next
    case o
    with assms show ?thesis by (auto simp: execCommand_def)
  qed
qed

lemma read_committed_only_db:
  "read_committed_only c d \<Longrightarrow> read_committed_only c' d' \<Longrightarrow> read_committed_only c d'"
  by (simp add: read_committed_only_def)

lemma rc_step:
  assumes "system_read_committed s" and "i < length (conns s)"
    and "execCommand vis (conns s ! i) (db s) command args = (r, c', d')"
  shows "system_read_committed (s\<lparr> db := d', conns := (conns s)[i := c'] \<rparr>)"
proof -
  from assms(1,2) have "read_committed_only (conns s ! i) (db s)"
    by (simp add: system_read_committed_def)
  from rc_execCommand [OF this assms(3)] have new: "read_committed_only c' d'" .
  have "read_committed_only c d'" if "c \<in> set ((conns s)[i := c'])" for c
  proof -
    from that have "c = c' \<or> c \<in> set (conns s)"
      using set_update_subset_insert [of "conns s" i c'] by auto
    with new assms(1) show ?thesis
      by (auto simp: system_read_committed_def intro: read_committed_only_db)
  qed
  moreover from assms(1) new have "read_committed_only newConnection d'"
    by (auto simp: system_read_committed_def intro: read_committed_only_db)
  ultimately show ?thesis by (simp add: system_read_committed_def)
qed

lemma rc_run: "system_read_committed s \<Longrightarrow> system_read_committed (snd (run vis s ops))"
proof (induction ops arbitrary: s)
  case Nil
  then show ?case by simp
next
  case (Cons op ops)
  show ?case
  proof (cases op)
    case NewConnection
    from Cons.prems have "system_read_committed (s\<lparr> conns := conns s @ [newConnection] \<rparr>)"
      by (auto simp: system_read_committed_def)
    with Cons.IH NewConnection show ?thesis by simp
  next
    case (Exec i command args)
    show ?thesis
    proof (cases "i < length (conns s)")
      case False
      with Cons Exec show ?thesis by simp
    next
      case True
      obtain r c' d' where
        ex: "execCommand vis (conns s ! i) (db s) command args = (r, c', d')"
        by (rule prod_cases3)
      let ?s' = "s\<lparr> db := d', conns := (conns s)[i := c'] \<rparr>"
      from rc_step [OF Cons.prems True ex] have s': "system_read_committed ?s'" .
      show ?thesis
      proof (cases r)
        case (Panicked e)
        with True ex s' Exec show ?thesis by (simp add: Let_def)
      next
        case (Returned v err)
        from Cons.IH [OF s'] have "system_read_committed (snd (run vis ?s' ops))" .
        with True ex Returned Exec show ?thesis
          by (simp add: split_beta Let_def)
      qed
    qed
  qed
qed

lemma rc_initial: "system_read_committed initial"
  by (simp add: system_read_committed_def read_committed_only_def initial_def newDatabase_def
                newConnection_def)

subsection \<open>Decimal numbers\<close>

lemma digit_inj: "i < 10 \<Longrightarrow> j < 10 \<Longrightarrow> digit i = digit j \<Longrightarrow> i = j"
proof -
  assume "i < 10" "j < 10" "digit i = digit j"
  moreover have "distinct ''0123456789''" by simp
  ultimately show "i = j"
    by (simp add: digit_def nth_eq_iff_index_eq)
qed

lemma Sprintf_d_nonempty: "Sprintf_d n \<noteq> []"
  by (subst Sprintf_d.simps) simp

lemma Sprintf_d_inj: "Sprintf_d n = Sprintf_d m \<Longrightarrow> n = m"
proof (induction n arbitrary: m rule: Sprintf_d.induct)
  case (1 n)
  show ?case
  proof (cases "n < 10")
    case True
    show ?thesis
    proof (cases "m < 10")
      case m: True
      with True "1.prems" show ?thesis
        by (simp add: Sprintf_d.simps [of n] Sprintf_d.simps [of m] digit_inj)
    next
      case False
      with True "1.prems" Sprintf_d_nonempty [of "m div 10"] show ?thesis
        by (simp add: Sprintf_d.simps [of n] Sprintf_d.simps [of m])
    qed
  next
    case False
    show ?thesis
    proof (cases "m < 10")
      case True
      with False "1.prems" Sprintf_d_nonempty [of "n div 10"] show ?thesis
        by (simp add: Sprintf_d.simps [of n] Sprintf_d.simps [of m])
    next
      case m: False
      with False "1.prems" have
        "Sprintf_d (n div 10) = Sprintf_d (m div 10)" "digit (n mod 10) = digit (m mod 10)"
        by (simp_all add: Sprintf_d.simps [of n] Sprintf_d.simps [of m])
      with "1.IH" [OF False, of "m div 10"] have "n div 10 = m div 10" "n mod 10 = m mod 10"
        by (simp_all add: digit_inj)
      then show ?thesis by (metis div_mult_mod_eq)
    qed
  qed
qed

subsection \<open>The counter\<close>

lemma next_exec_complete:
  "exec_complete c d st = (r, c', d') \<Longrightarrow> nextTransactionID d' = nextTransactionID d"
  by (auto simp: exec_complete_def completeTransaction_def Let_def split: option.splits)

lemma next_exec_write:
  assumes "exec_write vis c d command args = (r, c', d')"
  shows "nextTransactionID d' = nextTransactionID d"
proof (cases "assertValidTransaction d (tx c)")
  case (Some e)
  with assms show ?thesis by (simp add: exec_write_def)
next
  case None
  show ?thesis
  proof (cases args)
    case Nil
    with assms None show ?thesis by (simp add: exec_write_def)
  next
    case (Cons key rest)
    obtain d1 found where
      cl: "close_loop vis (the (tx c)) key (d, False) (length (versions d key)) = (d1, found)"
      by (cases "close_loop vis (the (tx c)) key (d, False) (length (versions d key))")
    from next_close_loop [OF cl] assms None Cons cl show ?thesis
      by (auto simp: exec_write_def Let_def split: if_splits list.splits)
  qed
qed

lemma next_execCommand:
  assumes "ToLower command \<noteq> ''begin''" and "execCommand vis c d command args = (r, c', d')"
  shows "nextTransactionID d' = nextTransactionID d"
proof -
  consider (a) "ToLower command = ''abort''"
    | (c) "ToLower command = ''commit''" | (g) "ToLower command = ''get''"
    | (w) "ToLower command = ''set'' \<or> ToLower command = ''delete''"
    | (o) "ToLower command \<notin> {''begin'', ''abort'', ''commit'', ''get'', ''set'', ''delete''}"
    using assms(1) by blast
  then show ?thesis
  proof cases
    case a
    with assms show ?thesis by (auto simp: execCommand_def dest: next_exec_complete)
  next
    case c
    with assms show ?thesis by (auto simp: execCommand_def dest: next_exec_complete)
  next
    case g
    obtain r1 c1 d1 where eg: "exec_get vis c d args = (r1, c1, d1)"
      by (cases "exec_get vis c d args")
    with assms g store_exec_get [OF eg] show ?thesis
      by (auto simp: execCommand_def Let_def split: option.splits)
  next
    case w
    with assms have "exec_write vis c d (ToLower command) args = (r, c', d')"
      by (auto simp: execCommand_def)
    then show ?thesis by (rule next_exec_write)
  next
    case o
    with assms show ?thesis by (auto simp: execCommand_def)
  qed
qed

lemma begin_execCommand:
  assumes "ToLower command = ''begin''"
    and "execCommand vis c d command args = (Returned v err, c', d')"
  shows "err = None \<and> nextTransactionID d \<noteq> 0 \<and> v = Sprintf_d (unat (nextTransactionID d)) \<and>
         nextTransactionID d' = nextTransactionID d + 1"
proof -
  from assms have "exec_begin c d = (Returned v err, c', d')"
    by (simp add: execCommand_def)
  from exec_begin_returned [OF this] show ?thesis
    by (simp add: newTransaction_def Let_def)
qed

text \<open>A counter that has not wrapped to 0 is below \<open>2 ^ 64\<close>.\<close>

lemma counter_step:
  fixes n :: nat
  assumes "(of_nat n :: uint64) \<noteq> 0" and "n \<le> 2 ^ 64"
  shows "n < 2 ^ 64 \<and> unat (of_nat n :: uint64) = n"
proof -
  have "n \<noteq> 2 ^ 64"
  proof
    assume "n = 2 ^ 64"
    then have "(of_nat n :: uint64) = of_nat (2 ^ 64)" by simp
    also have "\<dots> = 0" by simp
    finally show False using assms(1) by simp
  qed
  with assms(2) have "n < 2 ^ 64" by simp
  then show ?thesis by (simp add: unat_of_nat)
qed

lemma run_begin_results:
  assumes "nextTransactionID (db s) = of_nat n" and "n \<le> 2 ^ 64"
  shows "begin_results (fst (run vis s ops)) =
           map Sprintf_d [n ..< n + length (begin_results (fst (run vis s ops)))] \<and>
         n + length (begin_results (fst (run vis s ops))) \<le> 2 ^ 64"
  using assms
proof (induction ops arbitrary: s n)
  case Nil
  then show ?case by simp
next
  case (Cons op ops)
  show ?case
  proof (cases op)
    case NewConnection
    with Cons.IH [of "s\<lparr> conns := conns s @ [newConnection] \<rparr>" n] Cons.prems
    show ?thesis by simp
  next
    case (Exec i command args)
    show ?thesis
    proof (cases "i < length (conns s)")
      case False
      with Cons Exec show ?thesis by simp
    next
      case True
      obtain r c' d' where
        ex: "execCommand vis (conns s ! i) (db s) command args = (r, c', d')"
        by (rule prod_cases3)
      let ?s' = "s\<lparr> db := d', conns := (conns s)[i := c'] \<rparr>"
      show ?thesis
      proof (cases r)
        case (Panicked e)
        with True ex Exec Cons.prems show ?thesis by (simp add: Let_def)
      next
        case (Returned v err)
        with True ex Exec have unfold:
          "fst (run vis s (op # ops)) = (op, Returned v err) # fst (run vis ?s' ops)"
          by (simp add: Let_def split_beta)
        show ?thesis
        proof (cases "ToLower command = ''begin''")
          case False
          from next_execCommand [OF False ex]
          have "nextTransactionID d' = nextTransactionID (db s)" .
          with Cons.prems have "nextTransactionID (db ?s') = of_nat n" by simp
          moreover have "begin_results (fst (run vis s (op # ops))) =
                           begin_results (fst (run vis ?s' ops))"
            unfolding unfold using False by (cases err) (simp_all add: Exec)
          ultimately show ?thesis using Cons.IH [of ?s' n] Cons.prems(2)
            by simp
        next
          case b: True
          from begin_execCommand [OF b ex [unfolded Returned]] Cons.prems(1)
          have err: "err = None" and nz: "(of_nat n :: uint64) \<noteq> 0"
            and v: "v = Sprintf_d (unat (of_nat n :: uint64))"
            and nx: "nextTransactionID d' = of_nat n + 1"
            by simp_all
          from counter_step [OF nz Cons.prems(2)] have n: "n < 2 ^ 64"
            and un: "unat (of_nat n :: uint64) = n" by simp_all
          from nx have "nextTransactionID (db ?s') = of_nat (Suc n)" by simp
          moreover from n have "Suc n \<le> 2 ^ 64" by simp
          ultimately have ih:
            "begin_results (fst (run vis ?s' ops)) =
               map Sprintf_d [Suc n ..< Suc n + length (begin_results (fst (run vis ?s' ops)))] \<and>
             Suc n + length (begin_results (fst (run vis ?s' ops))) \<le> 2 ^ 64"
            by (rule Cons.IH)
          have res: "begin_results (fst (run vis s (op # ops))) =
                       Sprintf_d n # begin_results (fst (run vis ?s' ops))"
            unfolding unfold by (simp add: Exec err b v un)
          from ih show ?thesis
            by (simp add: res upt_conv_Cons del: upt_Suc)
        qed
      qed
    qed
  qed
qed

text \<open>A \<^verbatim>\<open>begin\<close> on a connection without a transaction returns unless the counter is 0.\<close>

lemma exec_begin_returns:
  assumes "tx c = None" and "nextTransactionID d \<noteq> 0"
  shows "exec_begin c d =
           (Returned (Sprintf_d (unat (nextTransactionID d))) None,
            c\<lparr> tx := Some (fst (newTransaction d)) \<rparr>, snd (newTransaction d))"
proof -
  let ?t = "fst (newTransaction d)" and ?d' = "snd (newTransaction d)"
  have "map_of (transactions ?d') (id_tx ?t) = Some ?t"
    by (simp add: newTransaction_def Let_def update_conv')
  moreover from assms(2) have "0 < id_tx ?t"
    by (simp add: newTransaction_def Let_def word_neq_0_conv)
  moreover have "state ?t = InProgressTransaction"
    by (simp add: newTransaction_def Let_def)
  ultimately have "assertValidTransaction ?d' (Some ?t) = None"
    by (auto simp: assertValid_iff)
  moreover have "id_tx ?t = nextTransactionID d"
    by (simp add: newTransaction_def Let_def)
  ultimately show ?thesis using assms(1)
    by (simp add: exec_begin_def split_beta Let_def)
qed

lemma run_NewConnections:
  "run vis s (replicate n NewConnection @ ops) =
   run vis (s\<lparr> conns := conns s @ replicate n newConnection \<rparr>) ops"
proof (induction n arbitrary: s)
  case 0
  then show ?case by simp
next
  case (Suc n)
  from Suc [of "s\<lparr> conns := conns s @ [newConnection] \<rparr>"] show ?case
    by simp
qed

lemma run_each_begins:
  assumes "length (conns s) = n" and "\<forall>i. j \<le> i \<and> i < n \<longrightarrow> tx (conns s ! i) = None"
    and "nextTransactionID (db s) = of_nat (Suc j)" and "n < 2 ^ 64"
  shows "fst (run vis s (map (\<lambda>i. Exec i ''begin'' []) [j ..< n])) =
         map (\<lambda>i. (Exec i ''begin'' [], Returned (Sprintf_d (Suc i)) None)) [j ..< n]"
  using assms
proof (induction "n - j" arbitrary: j s)
  case 0
  then show ?case by simp
next
  case (Suc k)
  from Suc.hyps(2) have j: "j < n" by simp
  with Suc.prems(4) have sj: "Suc j < 2 ^ 64" by simp
  then have un: "unat (of_nat (Suc j) :: uint64) = Suc j"
    by (simp add: unat_of_nat del: of_nat_Suc)
  have nz: "(of_nat (Suc j) :: uint64) \<noteq> 0"
  proof
    assume "(of_nat (Suc j) :: uint64) = 0"
    then have "unat (of_nat (Suc j) :: uint64) = 0" by (simp only: unat_0)
    with un show False by simp
  qed
  let ?c = "conns s ! j" and ?d = "db s"
  from Suc.prems(2) j have none: "tx ?c = None" by simp
  have low: "ToLower ''begin'' = ''begin''"
    by (simp add: ToLower_def lower_char_def)
  have nxt: "unat (nextTransactionID ?d) = Suc j"
    unfolding Suc.prems(3) by (rule un)
  have nz': "nextTransactionID ?d \<noteq> 0"
    unfolding Suc.prems(3) by (rule nz)
  have eb: "exec_begin ?c ?d =
              (Returned (Sprintf_d (Suc j)) None,
               ?c\<lparr> tx := Some (fst (newTransaction ?d)) \<rparr>, snd (newTransaction ?d))"
    using exec_begin_returns [OF none nz'] unfolding nxt .
  have ex: "execCommand vis ?c ?d ''begin'' [] =
              (Returned (Sprintf_d (Suc j)) None,
               ?c\<lparr> tx := Some (fst (newTransaction ?d)) \<rparr>, snd (newTransaction ?d))"
    by (simp add: execCommand_def low eb)
  let ?s' = "s\<lparr> db := snd (newTransaction ?d),
                conns := (conns s)[j := ?c\<lparr> tx := Some (fst (newTransaction ?d)) \<rparr>] \<rparr>"
  have "k = n - Suc j" using Suc.hyps(2) by simp
  moreover have "length (conns ?s') = n" using Suc.prems(1) by simp
  moreover have "\<forall>i. Suc j \<le> i \<and> i < n \<longrightarrow> tx (conns ?s' ! i) = None"
    using Suc.prems(2) by simp
  moreover have "nextTransactionID (db ?s') = of_nat (Suc (Suc j))"
    using Suc.prems(3) by (simp add: newTransaction_def Let_def)
  ultimately have ih:
    "fst (run vis ?s' (map (\<lambda>i. Exec i ''begin'' []) [Suc j ..< n])) =
     map (\<lambda>i. (Exec i ''begin'' [], Returned (Sprintf_d (Suc i)) None)) [Suc j ..< n]"
    using Suc.prems(4) by (rule Suc.hyps(1))
  from j have split: "[j ..< n] = j # [Suc j ..< n]"
    by (rule upt_conv_Cons)
  from j Suc.prems(1) ex have
    "run vis s (Exec j ''begin'' [] # map (\<lambda>i. Exec i ''begin'' []) [Suc j ..< n]) =
       ((Exec j ''begin'' [], Returned (Sprintf_d (Suc j)) None) #
          fst (run vis ?s' (map (\<lambda>i. Exec i ''begin'' []) [Suc j ..< n])),
        snd (run vis ?s' (map (\<lambda>i. Exec i ''begin'' []) [Suc j ..< n])))"
    by (simp add: Let_def split_beta)
  with ih show ?case
    unfolding split by simp
qed

lemma run_begins:
  assumes "n < 2 ^ 64"
  shows "fst (run vis initial (begins n)) =
         map (\<lambda>i. (Exec i ''begin'' [], Returned (Sprintf_d (Suc i)) None)) [0 ..< n]"
proof -
  let ?s = "initial\<lparr> conns := conns initial @ replicate n newConnection \<rparr>"
  have "length (conns ?s) = n" by (simp add: initial_def)
  moreover have "\<forall>i. 0 \<le> i \<and> i < n \<longrightarrow> tx (conns ?s ! i) = None"
    by (simp add: initial_def newConnection_def)
  moreover have "nextTransactionID (db ?s) = of_nat (Suc 0)"
    by (simp add: initial_def newDatabase_def)
  ultimately show ?thesis using assms
    unfolding begins_def run_NewConnections by (rule run_each_begins)
qed

subsection \<open>The keys of the table\<close>

lemma table_inv_fresh:
  assumes "table_inv n d"
  shows "distinct (map fst (transactions d)) \<and>
         nextTransactionID d \<notin> fst ` set (transactions d)"
proof -
  have "nextTransactionID d \<notin> fst ` set (transactions d)"
  proof
    assume "nextTransactionID d \<in> fst ` set (transactions d)"
    with assms have k: "0 < unat (of_nat n :: uint64)" "unat (of_nat n :: uint64) < n"
      by (auto simp: table_inv_def)
    then have "(of_nat n :: uint64) \<noteq> 0" by auto
    with assms counter_step [of n] have "unat (of_nat n :: uint64) = n"
      by (simp add: table_inv_def)
    with k show False by simp
  qed
  with assms show ?thesis by (simp add: table_inv_def)
qed

lemma table_exec_write:
  assumes "exec_write vis c d command args = (r, c', d')"
  shows "transactions d' = transactions d"
proof (cases "assertValidTransaction d (tx c)")
  case (Some e)
  with assms show ?thesis by (simp add: exec_write_def)
next
  case None
  show ?thesis
  proof (cases args)
    case Nil
    with assms None show ?thesis by (simp add: exec_write_def)
  next
    case (Cons key rest)
    obtain d1 found where
      cl: "close_loop vis (the (tx c)) key (d, False) (length (versions d key)) = (d1, found)"
      by (cases "close_loop vis (the (tx c)) key (d, False) (length (versions d key))")
    from isolation_close_loop [OF cl] assms None Cons cl show ?thesis
      by (auto simp: exec_write_def Let_def split: if_splits list.splits)
  qed
qed

lemma table_inv_exec_complete:
  assumes "table_inv n d" and "exec_complete c d st = (r, c', d')"
  shows "table_inv n d'"
proof (cases "assertValidTransaction d (tx c)")
  case (Some e)
  with assms show ?thesis by (simp add: exec_complete_def)
next
  case None
  then obtain t u where t: "tx c = Some t" "map_of (transactions d) (id_tx t) = Some u"
    by (auto simp: assertValid_iff)
  from assms(2) None t have d':
    "d' = d\<lparr> transactions := AList.update (id_tx t) (t\<lparr> state := st \<rparr>) (transactions d) \<rparr>"
    by (simp add: exec_complete_def completeTransaction_def Let_def)
  from t(2) have "id_tx t \<in> fst ` set (transactions d)"
    by (metis domI dom_map_of_conv_image_fst)
  then have keys: "fst ` set (transactions d') = fst ` set (transactions d)"
    by (auto simp: d' dom_update)
  from assms(1) have dist: "distinct (map fst (transactions d'))"
    by (simp add: d' distinct_update table_inv_def)
  have nx: "nextTransactionID d' = nextTransactionID d"
    by (simp add: d')
  from assms(1) dist show ?thesis
    unfolding table_inv_def keys nx by simp
qed

lemma table_inv_exec_begin:
  assumes "table_inv n d" and "exec_begin c d = (Returned v err, c', d')"
  shows "table_inv (Suc n) d'"
proof -
  from exec_begin_returned [OF assms(2)]
  have nz: "nextTransactionID d \<noteq> 0" and d': "d' = snd (newTransaction d)" by simp_all
  from assms(1) have nx: "nextTransactionID d = of_nat n" by (simp add: table_inv_def)
  from assms(1) nz counter_step [of n] have n: "n < 2 ^ 64" "unat (of_nat n :: uint64) = n"
    by (simp_all add: table_inv_def)
  have keys: "fst ` set (transactions d') = insert (of_nat n) (fst ` set (transactions d))"
    by (simp add: d' newTransaction_def Let_def dom_update nx)
  from assms(1) have dist: "distinct (map fst (transactions d'))"
    by (simp add: d' newTransaction_def Let_def distinct_update table_inv_def)
  have nx': "nextTransactionID d' = of_nat (Suc n)"
    by (simp add: d' newTransaction_def Let_def nx)
  from assms(1) have old: "\<forall>k \<in> fst ` set (transactions d). 0 < unat k \<and> unat k < n"
    and "0 < n"
    by (simp_all add: table_inv_def)
  with n have "\<forall>k \<in> insert (of_nat n) (fst ` set (transactions d)). 0 < unat k \<and> unat k < Suc n"
    by (auto simp: less_Suc_eq)
  with n dist show ?thesis
    unfolding table_inv_def keys nx' by simp
qed

lemma table_inv_execCommand:
  assumes "table_inv n d" and "execCommand vis c d command args = (Returned v err, c', d')"
  shows "\<exists>n'. table_inv n' d'"
proof -
  consider (b) "ToLower command = ''begin''" | (a) "ToLower command = ''abort''"
    | (c) "ToLower command = ''commit''" | (g) "ToLower command = ''get''"
    | (w) "ToLower command = ''set'' \<or> ToLower command = ''delete''"
    | (o) "ToLower command \<notin> {''begin'', ''abort'', ''commit'', ''get'', ''set'', ''delete''}"
    by blast
  then show ?thesis
  proof cases
    case b
    with assms show ?thesis by (auto simp: execCommand_def dest: table_inv_exec_begin)
  next
    case a
    with assms show ?thesis by (auto simp: execCommand_def dest: table_inv_exec_complete)
  next
    case c
    with assms show ?thesis by (auto simp: execCommand_def dest: table_inv_exec_complete)
  next
    case g
    obtain r1 c1 d1 where eg: "exec_get vis c d args = (r1, c1, d1)"
      by (cases "exec_get vis c d args")
    with assms g store_exec_get [OF eg] show ?thesis
      by (auto simp: execCommand_def Let_def split: option.splits)
  next
    case w
    with assms have ew: "exec_write vis c d (ToLower command) args = (Returned v err, c', d')"
      by (auto simp: execCommand_def)
    from table_exec_write [OF ew] next_exec_write [OF ew] assms(1) have "table_inv n d'"
      by (simp add: table_inv_def)
    then show ?thesis ..
  next
    case o
    with assms show ?thesis by (auto simp: execCommand_def)
  qed
qed

lemma table_inv_run:
  assumes "table_inv n (db s)" and "\<not> list_ex is_panic (map snd (fst (run vis s ops)))"
  shows "\<exists>n'. table_inv n' (db (snd (run vis s ops)))"
  using assms
proof (induction ops arbitrary: s n)
  case Nil
  then show ?case by auto
next
  case (Cons op ops)
  show ?case
  proof (cases op)
    case NewConnection
    with Cons.IH [of n "s\<lparr> conns := conns s @ [newConnection] \<rparr>"] Cons.prems
    show ?thesis by simp
  next
    case (Exec i command args)
    show ?thesis
    proof (cases "i < length (conns s)")
      case False
      with Cons Exec show ?thesis by simp
    next
      case True
      obtain r c' d' where
        ex: "execCommand vis (conns s ! i) (db s) command args = (r, c', d')"
        by (rule prod_cases3)
      let ?s' = "s\<lparr> db := d', conns := (conns s)[i := c'] \<rparr>"
      show ?thesis
      proof (cases r)
        case (Panicked e)
        with True ex Exec Cons.prems show ?thesis by (simp add: Let_def)
      next
        case (Returned v err)
        with True ex Exec have unfold:
          "run vis s (op # ops) =
             ((op, Returned v err) # fst (run vis ?s' ops), snd (run vis ?s' ops))"
          by (simp add: Let_def split_beta)
        from table_inv_execCommand [OF Cons.prems(1) ex [unfolded Returned]]
        obtain n' where "table_inv n' (db ?s')" by auto
        moreover from Cons.prems(2) have
          "\<not> list_ex is_panic (map snd (fst (run vis ?s' ops)))"
          by (simp add: unfold)
        ultimately have "\<exists>n'. table_inv n' (db (snd (run vis ?s' ops)))"
          by (rule Cons.IH)
        then show ?thesis by (simp add: unfold)
      qed
    qed
  qed
qed

text \<open>In a run without a panic, from a database with an empty table and the counter
  at 1, the table has one entry per id and none for the next id.\<close>

lemma reachable_table_fresh:
  assumes "transactions (db s) = []" and "nextTransactionID (db s) = 1"
    and "\<not> list_ex is_panic (map snd (fst (run vis s ops)))"
  shows "distinct (map fst (transactions (db (snd (run vis s ops))))) \<and>
         nextTransactionID (db (snd (run vis s ops))) \<notin>
           fst ` set (transactions (db (snd (run vis s ops))))"
proof -
  from assms(1,2) have "table_inv 1 (db s)" by (simp add: table_inv_def)
  from table_inv_run [OF this assms(3)] show ?thesis
    by (auto dest: table_inv_fresh)
qed

section \<open>Reading\<close>

text \<open>C1. A transaction that sets a key and then gets it should read the value it wrote,
  also when that version is the only one the key has. The loop of \<^verbatim>\<open>get\<close> stops before
  index 0, so on a new database \<^verbatim>\<open>begin\<close>, \<^verbatim>\<open>set x 1\<close>, \<^verbatim>\<open>get x\<close> does not return
  \<^verbatim>\<open>1\<close>: the \<^verbatim>\<open>get\<close> returns the empty string and the error of the last line of
  \<^verbatim>\<open>execCommand\<close>, whatever the visibility function is.\<close>

theorem get_after_first_set_misses:
  "fst (run vis initial
          [NewConnection, Exec 0 ''begin'' [], Exec 0 ''set'' [''x'', ''1''],
           Exec 0 ''get'' [''x'']]) =
   [(Exec 0 ''begin'' [], Returned ''1'' None),
    (Exec 0 ''set'' [''x'', ''1''], Returned ''1'' None),
    (Exec 0 ''get'' [''x''], Returned '''' (Some ''command unimplemented''))]"
  by (simp add: exec_defs)

text \<open>C4. A \<^verbatim>\<open>get\<close> of a key with no visible version should be a normal result without
  an error. On a new database \<^verbatim>\<open>begin\<close>, \<^verbatim>\<open>get x\<close> returns the empty string together
  with the error \<^verbatim>\<open>command unimplemented\<close>: the \<^verbatim>\<open>get\<close> block has no return after its
  loop.\<close>

theorem get_of_absent_key_is_an_error:
  "fst (run vis initial [NewConnection, Exec 0 ''begin'' [], Exec 0 ''get'' [''x'']]) =
   [(Exec 0 ''begin'' [], Returned ''1'' None),
    (Exec 0 ''get'' [''x''], Returned '''' (Some ''command unimplemented''))]"
  by (simp add: exec_defs)

section \<open>Committing and aborting\<close>

text \<open>C2, as the specification has it: of two transactions under snapshot isolation that
  set the same key, the second to commit fails and is aborted. It is not so: with the
  default level at snapshot isolation, both commits return without an error and both
  transactions end committed.\<close>

theorem second_writer_commits_counterexample:
  "fst (run versionVisible snapshot_system (two_writers @ [Exec 1 ''commit'' []])) =
     [(Exec 0 ''begin'' [], Returned ''1'' None), (Exec 1 ''begin'' [], Returned ''2'' None),
      (Exec 0 ''set'' [''x'', ''1''], Returned ''1'' None),
      (Exec 1 ''set'' [''x'', ''2''], Returned ''2'' None),
      (Exec 0 ''commit'' [], Returned '''' None), (Exec 1 ''commit'' [], Returned '''' None)] \<and>
   table_states (db (snd (run versionVisible snapshot_system (two_writers @ [Exec 1 ''commit'' []])))) =
     [(1, SnapshotIsolation, CommittedTransaction), (2, SnapshotIsolation, CommittedTransaction)]"
  by (simp add: exec_defs versionVisible_def creatorVisible_def)

text \<open>C2, amended. \<^verbatim>\<open>commit\<close> looks at no isolation level and at no other writer: the
  commit of a transaction that is in progress in the table returns the empty string and
  no error, clears the connection, leaves the store as it is and records the
  connection's transaction as committed, whatever the level and whatever other
  transactions have written.\<close>

theorem commit_always_succeeds:
  assumes "ToLower command = ''commit''" and "tx c = Some t" and "0 < id_tx t"
    and "map_of (transactions d) (id_tx t) = Some u" and "state u = InProgressTransaction"
    and "execCommand vis c d command args = (r, c', d')"
  shows "r = Returned '''' None \<and> tx c' = None \<and> store d' = store d \<and>
         map_of (transactions d') =
           (map_of (transactions d))(id_tx t \<mapsto> t\<lparr> state := CommittedTransaction \<rparr>)"
proof -
  from assms(1) have "execCommand vis c d command args = exec_complete c d CommittedTransaction"
    by (simp add: execCommand_def)
  with assms exec_complete_valid [of c t d u CommittedTransaction]
  have "r = Returned '''' None" "c' = c\<lparr> tx := None \<rparr>"
    "d' = d\<lparr> transactions :=
              AList.update (id_tx t) (t\<lparr> state := CommittedTransaction \<rparr>) (transactions d) \<rparr>"
    by simp_all
  then show ?thesis by (simp add: update_conv')
qed

theorem commit_always_succeeds_witness:
  "ToLower ''commit'' = ''commit'' \<and>
   tx (conns (snd (run versionVisible snapshot_system two_writers)) ! 1) =
     Some \<lparr> id_tx = 2, isolation = SnapshotIsolation, state = InProgressTransaction,
            inProgress = {1}, writeset = {''x''}, readset = {} \<rparr> \<and>
   map_option state (map_of (transactions (db (snd (run versionVisible snapshot_system two_writers)))) 2) =
     Some InProgressTransaction \<and>
   fst (execCommand versionVisible (conns (snd (run versionVisible snapshot_system two_writers)) ! 1)
          (db (snd (run versionVisible snapshot_system two_writers))) ''commit'' []) =
     Returned '''' None"
proof -
  let ?s = "snd (run versionVisible snapshot_system two_writers)"
  let ?t = "\<lparr> id_tx = 2, isolation = SnapshotIsolation, state = InProgressTransaction,
              inProgress = {1}, writeset = {''x''}, readset = {} \<rparr>"
  let ?u = "\<lparr> id_tx = 2, isolation = SnapshotIsolation, state = InProgressTransaction,
              inProgress = {1}, writeset = {}, readset = {} \<rparr>"
  obtain r c' d' where
    run: "execCommand versionVisible (conns ?s ! 1) (db ?s) ''commit'' [] = (r, c', d')"
    by (rule prod_cases3)
  have name: "ToLower ''commit'' = ''commit''"
    by (simp add: ToLower_def lower_char_def)
  have t: "tx (conns ?s ! 1) = Some ?t"
    by (simp add: two_writers_state)
  have pos: "0 < id_tx ?t" by simp
  have u: "map_of (transactions (db ?s)) (id_tx ?t) = Some ?u"
    by (simp add: two_writers_state)
  have st: "state ?u = InProgressTransaction" by simp
  from commit_always_succeeds [OF name t pos u st run] have "r = Returned '''' None"
    by simp
  with run name t u show ?thesis by simp
qed

text \<open>C8. The \<^verbatim>\<open>abort\<close> of a transaction that is in progress returns without an error,
  leaves the store, the counter and the default level as they are, and changes the table
  at that transaction's id only, where it records the connection's transaction as
  aborted. And no command ever sets the closing id of a closed version back to 0: a
  version that is closed before a call is closed after it.\<close>

theorem abort_leaves_store:
  assumes "execCommand vis c d command args = (r, c', d')"
  shows "(ToLower command = ''abort'' \<and> tx c = Some t \<and> 0 < id_tx t \<and>
          map_of (transactions d) (id_tx t) = Some u \<and> state u = InProgressTransaction \<longrightarrow>
            r = Returned '''' None \<and> tx c' = None \<and> store d' = store d \<and>
            nextTransactionID d' = nextTransactionID d \<and>
            defaultIsolation d' = defaultIsolation d \<and>
            map_of (transactions d') =
              (map_of (transactions d))(id_tx t \<mapsto> t\<lparr> state := AbortedTransaction \<rparr>)) \<and>
         (\<forall>key i. i < length (versions d key) \<and> txEndID (versions d key ! i) \<noteq> 0 \<longrightarrow>
                   i < length (versions d' key) \<and> txEndID (versions d' key ! i) \<noteq> 0)"
proof (intro conjI impI)
  from closed_kept_execCommand [OF assms]
  show "\<forall>key i. i < length (versions d key) \<and> txEndID (versions d key ! i) \<noteq> 0 \<longrightarrow>
                 i < length (versions d' key) \<and> txEndID (versions d' key ! i) \<noteq> 0"
    by (simp add: closed_kept_def)
next
  assume h: "ToLower command = ''abort'' \<and> tx c = Some t \<and> 0 < id_tx t \<and>
          map_of (transactions d) (id_tx t) = Some u \<and> state u = InProgressTransaction"
  then have "execCommand vis c d command args = exec_complete c d AbortedTransaction"
    by (simp add: execCommand_def)
  with h assms exec_complete_valid [of c t d u AbortedTransaction]
  have res: "r = Returned '''' None" "c' = c\<lparr> tx := None \<rparr>"
    "d' = d\<lparr> transactions := AList.update (id_tx t) (t\<lparr> state := AbortedTransaction \<rparr>) (transactions d) \<rparr>"
    by simp_all
  from res show "r = Returned '''' None" by simp
  from res show "tx c' = None" by simp
  from res show "store d' = store d" by simp
  from res show "nextTransactionID d' = nextTransactionID d" by simp
  from res show "defaultIsolation d' = defaultIsolation d" by simp
  from res show "map_of (transactions d') =
              (map_of (transactions d))(id_tx t \<mapsto> t\<lparr> state := AbortedTransaction \<rparr>)"
    by (simp add: update_conv')
qed

theorem abort_leaves_store_witness:
  "ToLower ''abort'' = ''abort'' \<and> tx conn1w = Some tx1w \<and> 0 < id_tx tx1w \<and>
   map_of (transactions db1w) (id_tx tx1w) = Some tx1 \<and> state tx1 = InProgressTransaction \<and>
   0 < length (versions db1w ''x'') \<and> txEndID (versions db1w ''x'' ! 0) \<noteq> 0 \<and>
   fst (execCommand versionVisible conn1w db1w ''abort'' []) = Returned '''' None \<and>
   store (snd (snd (execCommand versionVisible conn1w db1w ''abort'' []))) = store db1w \<and>
   txEndID (versions (snd (snd (execCommand versionVisible conn1w db1w ''abort'' []))) ''x'' ! 0) \<noteq> 0"
proof -
  obtain r c' d' where run: "execCommand versionVisible conn1w db1w ''abort'' [] = (r, c', d')"
    by (rule prod_cases3)
  have hyp: "ToLower ''abort'' = ''abort'' \<and> tx conn1w = Some tx1w \<and> 0 < id_tx tx1w \<and>
   map_of (transactions db1w) (id_tx tx1w) = Some tx1 \<and> state tx1 = InProgressTransaction"
    by (simp add: exec_defs)
  have old: "0 < length (versions db1w ''x'') \<and> txEndID (versions db1w ''x'' ! 0) \<noteq> 0"
    by (simp add: exec_defs)
  from abort_leaves_store [OF run, of tx1w tx1] hyp old
  have "r = Returned '''' None \<and> store d' = store db1w \<and> txEndID (versions d' ''x'' ! 0) \<noteq> 0"
    by blast
  with run hyp old show ?thesis by simp
qed

section \<open>Beginning\<close>

text \<open>C3. In every run on a new database, every transaction in the table has the level
  read committed, and the default level of the database is still read committed.\<close>

theorem stored_transactions_read_committed:
  assumes "(k, t) \<in> set (transactions (db (snd (run vis initial ops))))"
  shows "isolation t = ReadCommittedIsolation \<and>
         defaultIsolation (db (snd (run vis initial ops))) = ReadCommittedIsolation"
  using rc_run [OF rc_initial, of vis ops] assms
  by (auto simp: system_read_committed_def read_committed_only_def)

theorem stored_transactions_read_committed_witness:
  "(1, tx1) \<in> set (transactions (db (snd (run versionVisible initial
                      [NewConnection, Exec 0 ''begin'' []])))) \<and>
   isolation tx1 = ReadCommittedIsolation"
proof -
  have stored: "(1, tx1) \<in> set (transactions (db (snd (run versionVisible initial
                      [NewConnection, Exec 0 ''begin'' []]))))"
    by (simp add: exec_defs)
  from stored_transactions_read_committed [OF stored] stored show ?thesis by simp
qed

text \<open>C5. In every run on a new database, the \<^verbatim>\<open>begin\<close> commands that return, return
  1, 2, 3, ... in this order, and no two of them return the same id, whatever other
  commands (aborts among them) run in between. And in a sequence of \<open>n\<close> begins on a new
  database, with \<open>n\<close> below \<open>2 ^ 64\<close>, every \<^verbatim>\<open>begin\<close> returns, the \<open>i\<close>-th of them the
  id \<open>i\<close>. A \<^verbatim>\<open>begin\<close> that would wrap the 64-bit counter to 0 does not return: it
  panics at the assertion \<^verbatim>\<open>valid id\<close>, and the run ends.\<close>

theorem begin_ids_count_up:
  "begin_results (fst (run vis initial ops)) =
     map Sprintf_d [1 ..< Suc (length (begin_results (fst (run vis initial ops))))] \<and>
   distinct (begin_results (fst (run vis initial ops))) \<and>
   (n < 2 ^ 64 \<longrightarrow>
      fst (run vis initial (begins n)) =
        map (\<lambda>i. (Exec i ''begin'' [], Returned (Sprintf_d (Suc i)) None)) [0 ..< n])"
proof -
  have "nextTransactionID (db initial) = of_nat 1"
    by (simp add: initial_def newDatabase_def)
  from run_begin_results [OF this, of vis ops]
  have eq: "begin_results (fst (run vis initial ops)) =
     map Sprintf_d [1 ..< Suc (length (begin_results (fst (run vis initial ops))))]"
    by simp
  have "distinct (map Sprintf_d [1 ..< Suc k])" for k
    by (auto simp: distinct_map inj_on_def dest: Sprintf_d_inj)
  with eq have "distinct (begin_results (fst (run vis initial ops)))"
    by metis
  with eq run_begins [of n vis] show ?thesis
    by blast
qed

theorem begin_ids_count_up_witness:
  "begin_results (fst (run versionVisible initial
      [NewConnection, Exec 0 ''begin'' [], Exec 0 ''abort'' [], Exec 0 ''begin'' []])) =
     [''1'', ''2''] \<and>
   (3::nat) < 2 ^ 64 \<and>
   fst (run versionVisible initial (begins 3)) =
     [(Exec 0 ''begin'' [], Returned ''1'' None), (Exec 1 ''begin'' [], Returned ''2'' None),
      (Exec 2 ''begin'' [], Returned ''3'' None)]"
proof -
  define r where "r = begin_results (fst (run versionVisible initial
      [NewConnection, Exec 0 ''begin'' [], Exec 0 ''abort'' [], Exec 0 ''begin'' []]))"
  have len: "length r = 2"
    unfolding r_def by (simp add: exec_defs)
  have "r = map Sprintf_d [1 ..< Suc (length r)]"
    unfolding r_def by (rule begin_ids_count_up [THEN conjunct1])
  then have "r = map Sprintf_d [1 ..< Suc 2]"
    by (simp only: len)
  also have "map Sprintf_d [1 ..< Suc 2] = [''1'', ''2'']"
    by (simp add: upt_rec Sprintf_d.simps digit_def)
  finally have first: "r = [''1'', ''2'']" .
  have small: "(3::nat) < 2 ^ 64" by simp
  from begin_ids_count_up [of versionVisible "[]" 3] small
  have "fst (run versionVisible initial (begins 3)) =
          map (\<lambda>i. (Exec i ''begin'' [], Returned (Sprintf_d (Suc i)) None)) [0 ..< 3]"
    by blast
  also have "\<dots> = [(Exec 0 ''begin'' [], Returned ''1'' None),
                    (Exec 1 ''begin'' [], Returned ''2'' None),
                    (Exec 2 ''begin'' [], Returned ''3'' None)]"
    by (simp add: upt_rec Sprintf_d.simps digit_def)
  finally show ?thesis
    using first small unfolding r_def by simp
qed

text \<open>C6. A \<^verbatim>\<open>begin\<close> that returns, on a database whose level is repeatable read or
  stricter and whose table has one entry per id and none at the counter, gives the
  connection a transaction with the database's level, whose snapshot is exactly the set
  of ids that are in progress in the table before the call, and does not contain its
  own id; its id is the counter's value before the call, its state is in progress, and
  the table holds it at that id after the call.\<close>

theorem begin_takes_snapshot:
  assumes "ToLower command = ''begin''"
    and "execCommand vis c d command args = (Returned v err, c', d')"
    and "distinct (map fst (transactions d))"
    and "nextTransactionID d \<notin> fst ` set (transactions d)"
    and "isolation_rank RepeatableReadIsolation \<le> isolation_rank (defaultIsolation d)"
  shows "\<exists>t. tx c' = Some t \<and> isolation t = defaultIsolation d \<and>
           inProgress t = {k. \<exists>u. map_of (transactions d) k = Some u \<and>
                                  state u = InProgressTransaction} \<and>
           id_tx t \<notin> inProgress t \<and> id_tx t = nextTransactionID d \<and>
           state t = InProgressTransaction \<and>
           map_of (transactions d') (id_tx t) = Some t"
proof -
  let ?t = "fst (newTransaction d)"
  from assms(1,2) have "exec_begin c d = (Returned v err, c', d')"
    by (simp add: execCommand_def)
  from exec_begin_returned [OF this]
  have c': "tx c' = Some ?t" and d': "d' = snd (newTransaction d)" by simp_all
  have fields: "isolation ?t = defaultIsolation d" "id_tx ?t = nextTransactionID d"
    "state ?t = InProgressTransaction" "inProgress ?t = Database_inProgress d"
    by (simp_all add: newTransaction_def Let_def)
  from assms(3) have snap: "inProgress ?t =
      {k. \<exists>u. map_of (transactions d) k = Some u \<and> state u = InProgressTransaction}"
    by (simp add: fields Database_inProgress_map_of)
  from assms(4) have own: "id_tx ?t \<notin> inProgress ?t"
    by (force simp: fields Database_inProgress_set)
  from d' have reg: "map_of (transactions d') (id_tx ?t) = Some ?t"
    by (simp add: newTransaction_def Let_def update_conv')
  from c' fields snap own reg show ?thesis by blast
qed

theorem begin_takes_snapshot_witness:
  "ToLower ''begin'' = ''begin'' \<and>
   execCommand versionVisible newConnection rr_db ''begin'' [] =
     (Returned ''3'' None,
      \<lparr> tx = Some \<lparr> id_tx = 3, isolation = RepeatableReadIsolation,
                    state = InProgressTransaction, inProgress = {2}, writeset = {},
                    readset = {} \<rparr> \<rparr>,
      snd (snd (execCommand versionVisible newConnection rr_db ''begin'' []))) \<and>
   distinct (map fst (transactions rr_db)) \<and>
   nextTransactionID rr_db \<notin> fst ` set (transactions rr_db) \<and>
   isolation_rank RepeatableReadIsolation \<le> isolation_rank (defaultIsolation rr_db) \<and>
   map_of (transactions (snd (snd (execCommand versionVisible newConnection rr_db ''begin'' [])))) 3 =
     Some \<lparr> id_tx = 3, isolation = RepeatableReadIsolation, state = InProgressTransaction,
            inProgress = {2}, writeset = {}, readset = {} \<rparr>"
proof -
  let ?t = "\<lparr> id_tx = 3, isolation = RepeatableReadIsolation, state = InProgressTransaction,
              inProgress = {2}, writeset = {}, readset = {} \<rparr>"
  let ?d' = "snd (snd (execCommand versionVisible newConnection rr_db ''begin'' []))"
  have name: "ToLower ''begin'' = ''begin''"
    by (simp add: ToLower_def lower_char_def)
  have run: "execCommand versionVisible newConnection rr_db ''begin'' [] =
               (Returned ''3'' None, \<lparr> tx = Some ?t \<rparr>, ?d')"
    by (simp add: exec_defs rr_db_def)
  have wf: "distinct (map fst (transactions rr_db))" by (simp add: rr_db_def)
  have fresh: "nextTransactionID rr_db \<notin> fst ` set (transactions rr_db)"
    by (simp add: rr_db_def)
  have level: "isolation_rank RepeatableReadIsolation \<le> isolation_rank (defaultIsolation rr_db)"
    by (simp add: rr_db_def)
  from begin_takes_snapshot [OF name run wf fresh level]
  have "map_of (transactions ?d') (id_tx ?t) = Some ?t" by auto
  with name run wf fresh level show ?thesis by simp
qed

section \<open>Misuse\<close>

text \<open>C7, as the specification has it: a \<^verbatim>\<open>begin\<close> on a connection with a transaction,
  and any other command on a connection without one, fail with an error that is handed
  back to the caller. It is not so: neither call returns an error.\<close>

theorem misuse_error_counterexample:
  "\<not> returns_error (fst (execCommand versionVisible conn1 db1 ''begin'' [])) \<and>
   \<not> returns_error (fst (execCommand versionVisible newConnection db1 ''get'' [''x'']))"
  by (simp add: exec_defs)

text \<open>C7, amended. A \<^verbatim>\<open>begin\<close> on a connection that has a transaction panics at the
  assertion \<^verbatim>\<open>no running transactions\<close>, and \<^verbatim>\<open>abort\<close>, \<^verbatim>\<open>commit\<close>, \<^verbatim>\<open>get\<close>,
  \<^verbatim>\<open>set\<close> and \<^verbatim>\<open>delete\<close> on a connection that has none panic on the nil pointer;
  at the panic the connection and the database are as they were before the call.\<close>

theorem misuse_panics:
  "(tx c \<noteq> None \<and> ToLower command = ''begin'' \<longrightarrow>
      execCommand vis c d command args =
        (Panicked (AssertEqFailed ''no running transactions''), c, d)) \<and>
   (tx c = None \<and> ToLower command \<in> {''abort'', ''commit'', ''get'', ''set'', ''delete''} \<longrightarrow>
      execCommand vis c d command args = (Panicked NilPointerDereference, c, d))"
  by (auto simp: execCommand_def exec_begin_def exec_complete_def exec_get_def exec_write_def
                 assertValid_nil)

theorem misuse_panics_witness:
  "tx conn1 \<noteq> None \<and> ToLower ''begin'' = ''begin'' \<and>
   execCommand versionVisible conn1 db1 ''begin'' [] =
     (Panicked (AssertEqFailed ''no running transactions''), conn1, db1) \<and>
   tx newConnection = None \<and> ToLower ''get'' \<in> {''abort'', ''commit'', ''get'', ''set'', ''delete''} \<and>
   execCommand versionVisible newConnection db1 ''get'' [''x''] =
     (Panicked NilPointerDereference, newConnection, db1)"
proof -
  have h1: "tx conn1 \<noteq> None \<and> ToLower ''begin'' = ''begin''"
    by (simp add: conn1_def ToLower_def lower_char_def)
  have h2: "tx newConnection = None \<and>
            ToLower ''get'' \<in> {''abort'', ''commit'', ''get'', ''set'', ''delete''}"
    by (simp add: newConnection_def ToLower_def lower_char_def)
  from h1 h2 misuse_panics [of conn1 "''begin''" versionVisible db1 "[]"]
    misuse_panics [of newConnection "''get''" versionVisible db1 "[''x'']"]
  show ?thesis by blast
qed

section \<open>Deleting\<close>

text \<open>C9. A \<^verbatim>\<open>delete\<close> of a key with no visible version fails, and its message should
  name the key. On a new database \<^verbatim>\<open>begin\<close>, \<^verbatim>\<open>delete x\<close> returns an error whose text
  has \<^verbatim>\<open>%!q(MISSING)\<close> where the key should be: the format string is given no
  argument.\<close>

theorem delete_error_drops_the_key:
  "fst (run vis initial [NewConnection, Exec 0 ''begin'' [], Exec 0 ''delete'' [''x'']]) =
   [(Exec 0 ''begin'' [], Returned ''1'' None),
    (Exec 0 ''delete'' [''x''],
     Returned '''' (Some ''delete failed: key %!q(MISSING) not found''))]"
  by (simp add: exec_defs)

text \<open>C10. When \<^verbatim>\<open>delete\<close> returns an error, the call has changed nothing: the
  connection's transaction (its write set included) and the database (store, table,
  counter) are as they were before the call.\<close>

theorem delete_failure_changes_nothing:
  assumes "ToLower command = ''delete''"
    and "execCommand vis c d command args = (Returned v (Some err), c', d')"
  shows "c' = c \<and> d' = d"
  using assms exec_write_delete_error [of vis c d args v err c' d']
  by (simp add: execCommand_delete)

theorem delete_failure_changes_nothing_witness:
  "ToLower ''DELETE'' = ''delete'' \<and>
   execCommand versionVisible conn1 db1 ''DELETE'' [''x''] =
     (Returned '''' (Some ''delete failed: key %!q(MISSING) not found''), conn1, db1)"
proof -
  have name: "ToLower ''DELETE'' = ''delete''"
    by (simp add: ToLower_def lower_char_def)
  obtain c' d' where
    res: "execCommand versionVisible conn1 db1 ''DELETE'' [''x''] =
            (Returned '''' (Some ''delete failed: key %!q(MISSING) not found''), c', d')"
    by (simp add: exec_defs)
  from delete_failure_changes_nothing [OF name res] res name show ?thesis
    by simp
qed

end
